theory Spec2Isabelle
  imports
    Main
    "HOL-Library.Word"
    "HOL-Library.Multiset"
    "HOL-Library.List_Lexorder"
    "HOL-Library.Product_Lexorder"
begin

unbundle bit_operations_syntax

section \<open>Bytes, identifiers and keys\<close>

text \<open>
  A \<^verbatim>\<open>QByteArray\<close> is a finite sequence of bytes. Its \<^verbatim>\<open>operator<\<close> compares
  bytewise and treats a proper prefix as smaller.
\<close>

type_synonym byte = "8 word"
type_synonym QByteArray = "byte list"

fun QByteArray_less :: "QByteArray \<Rightarrow> QByteArray \<Rightarrow> bool" where
  "QByteArray_less [] [] = False"
| "QByteArray_less [] (y # ys) = True"
| "QByteArray_less (x # xs) [] = False"
| "QByteArray_less (x # xs) (y # ys) = (x < y \<or> (x = y \<and> QByteArray_less xs ys))"

text \<open>
  Modelled from the spec: \<^verbatim>\<open>Connections/Id.hpp\<close> is not among the sources. A peer
  identifier is a non-negative integer compared numerically; \<^verbatim>\<open>Id::Zero()\<close> is the
  designated zero identifier.
\<close>

type_synonym Id = nat

definition Zero :: Id where
  "Zero = 0"

text \<open>
  Modelled from the spec: \<^verbatim>\<open>Crypto/AsymmetricKey.hpp\<close> is not among the sources. The
  spec identifies a public key with its serialized key bytes, so a key is the byte array
  that \<^verbatim>\<open>GetByteArray()\<close> returns and \<^verbatim>\<open>operator==\<close> on keys is equality of
  these bytes. The shared pointers of the source are taken to be non-null.
\<close>

datatype AsymmetricKey = AsymmetricKey (GetByteArray: QByteArray)

section \<open>Group.hpp\<close>

subsection \<open>GroupContainer and its operators\<close>

text \<open>
  \<^verbatim>\<open>typedef Triple<Id, QSharedPointer<AsymmetricKey>, QByteArray> GroupContainer\<close>
\<close>

record GroupContainer =
  first :: Id
  second :: AsymmetricKey
  third :: QByteArray

text \<open>\<^verbatim>\<open>operator!=\<close>, \<^verbatim>\<open>operator==\<close> and \<^verbatim>\<open>operator<\<close> as Group.hpp writes them.\<close>

definition GroupContainer_ne :: "GroupContainer \<Rightarrow> GroupContainer \<Rightarrow> bool" where
  "GroupContainer_ne lhs rhs =
     ((first lhs \<noteq> first rhs) \<or>
      (second lhs \<noteq> second rhs) \<or>
      (third lhs \<noteq> third rhs))"

definition GroupContainer_eq :: "GroupContainer \<Rightarrow> GroupContainer \<Rightarrow> bool" where
  "GroupContainer_eq lhs rhs =
     ((first lhs = first rhs) \<or>
      (second lhs = second rhs) \<or>
      (third lhs = third rhs))"

definition GroupContainer_less :: "GroupContainer \<Rightarrow> GroupContainer \<Rightarrow> bool" where
  "GroupContainer_less lhs rhs =
     ((first lhs < first rhs) \<or>
      ((first lhs = first rhs) \<and>
       (QByteArray_less (GetByteArray (second lhs)) (GetByteArray (second rhs)) \<or>
        ((second lhs = second rhs) \<and> QByteArray_less (third lhs) (third rhs)))))"

subsection \<open>GroupData\<close>

text \<open>
  The private storage of a group. \<^verbatim>\<open>QHash<const Id, int>\<close> is a finite map; the
  \<^verbatim>\<open>int\<close> fields are the source's.
\<close>

record GroupData =
  Roster :: "GroupContainer list"
  IdtoInt :: "Id \<rightharpoonup> int"
  Leader :: Id
  SGPolicy :: int
  Size :: int

text \<open>
  The default constructor \<^verbatim>\<open>GroupData(): SGPolicy(0), Size(0)\<close> default-constructs
  the roster and the hash (both empty) and the leader; what \<^verbatim>\<open>Id()\<close> yields is
  not in the sources, so that value is the parameter \<open>default_id\<close>.
\<close>

definition GroupData_default :: "Id \<Rightarrow> GroupData" where
  "GroupData_default default_id =
     \<lparr>Roster = [], IdtoInt = Map.empty, Leader = default_id, SGPolicy = 0, Size = 0\<rparr>"

text \<open>
  \<^verbatim>\<open>GroupData(roster, id_to_int, leader, subgroup_policy)\<close>: the fields are copied and
  \<^verbatim>\<open>Size(roster.count())\<close>.
\<close>

definition GroupData_new ::
  "GroupContainer list \<Rightarrow> (Id \<rightharpoonup> int) \<Rightarrow> Id \<Rightarrow> int \<Rightarrow> GroupData" where
  "GroupData_new roster id_to_int leader subgroup_policy =
     \<lparr>Roster = roster, IdtoInt = id_to_int, Leader = leader,
      SGPolicy = subgroup_policy, Size = int (length roster)\<rparr>"

subsection \<open>Group\<close>

text \<open>
  A group holds the shared \<^verbatim>\<open>_data\<close> and the pointer \<^verbatim>\<open>_subgroup\<close>, which may be
  null.
\<close>

datatype Group = Group (data: GroupData) (subgroup: "Group option")

definition GetRoster :: "Group \<Rightarrow> GroupContainer list" where
  "GetRoster g = Roster (data g)"

definition Count :: "Group \<Rightarrow> int" where
  "Count g = Size (data g)"

text \<open>\<^verbatim>\<open>enum SubgroupPolicy\<close> with the values the source assigns.\<close>

datatype SubgroupPolicy = CompleteGroup | FixedSubgroup | DisabledGroup

fun SubgroupPolicy_value :: "SubgroupPolicy \<Rightarrow> int" where
  "SubgroupPolicy_value CompleteGroup = 0"
| "SubgroupPolicy_value FixedSubgroup = 1"
| "SubgroupPolicy_value DisabledGroup = 255"

text \<open>
  Modelled from the spec: the constructor \<^verbatim>\<open>Group(roster, leader, subgroup_policy)\<close> is
  declared in Group.hpp and defined outside the sources. The spec gives it as: sort the
  roster; build the index; build the subgroup if the policy dictates (4.1); the roster is
  \<open>sort(dedup(R))\<close>, duplicate-free by PeerId, with \<open>index[r[i].id] = i\<close>, and every
  permutation of the input builds the same group (3 and 8).

  \<open>dedup\<close> removes duplicates by PeerId. The spec does not say which of several entries
  with one PeerId is kept; since a permutation of the input must build the same group,
  the choice cannot depend on the order of the input, and \<open>dedup\<close> keeps the entry that
  is least by \<^verbatim>\<open>operator<\<close>, once. Sorting (\<open>insert_sorted\<close>, \<open>qSort\<close>) uses
  \<^verbatim>\<open>operator<\<close> of GroupContainer; insertion sort stands for the library sort. The
  index (\<open>build_index\<close>) maps each identifier to its position in the roster. How a policy
  picks its subgroup is not described, so that choice is the parameter \<open>sub\<close> of
  \<open>Group_new\<close>, applied to the roster, the leader and the policy.
\<close>

definition dedup :: "GroupContainer list \<Rightarrow> GroupContainer list" where
  "dedup roster =
     remdups (filter (\<lambda>x. list_all (\<lambda>y. first y = first x \<longrightarrow> \<not> GroupContainer_less y x) roster)
                roster)"

fun insert_sorted :: "GroupContainer \<Rightarrow> GroupContainer list \<Rightarrow> GroupContainer list" where
  "insert_sorted x [] = [x]"
| "insert_sorted x (y # ys) =
     (if GroupContainer_less x y then x # y # ys else y # insert_sorted x ys)"

fun qSort :: "GroupContainer list \<Rightarrow> GroupContainer list" where
  "qSort [] = []"
| "qSort (x # xs) = insert_sorted x (qSort xs)"

fun build_index :: "GroupContainer list \<Rightarrow> int \<Rightarrow> (Id \<rightharpoonup> int) \<Rightarrow> (Id \<rightharpoonup> int)" where
  "build_index [] idx id_to_int = id_to_int"
| "build_index (gc # rest) idx id_to_int =
     build_index rest (idx + 1) (id_to_int(first gc \<mapsto> idx))"

definition Group_new ::
  "(GroupContainer list \<Rightarrow> Id \<Rightarrow> SubgroupPolicy \<Rightarrow> Group option) \<Rightarrow>
   GroupContainer list \<Rightarrow> Id \<Rightarrow> SubgroupPolicy \<Rightarrow> Group" where
  "Group_new sub roster leader subgroup_policy =
     (let sorted_roster = qSort (dedup roster)
      in Group
           (GroupData_new sorted_roster (build_index sorted_roster 0 Map.empty) leader
              (SubgroupPolicy_value subgroup_policy))
           (sub sorted_roster leader subgroup_policy))"

text \<open>
  The key the spec orders a roster by: (PeerId, serialized key bytes, dh bytes), compared
  lexicographically (numerically on the identifier, bytewise on the byte arrays).
\<close>

definition roster_key :: "GroupContainer \<Rightarrow> Id \<times> QByteArray \<times> QByteArray" where
  "roster_key gc = (first gc, GetByteArray (second gc), third gc)"

text \<open>
  A roster is sorted ascending by \<^verbatim>\<open>operator<\<close> when no entry is smaller than an
  entry before it. Equal entries may repeat.
\<close>

definition roster_sorted :: "GroupContainer list \<Rightarrow> bool" where
  "roster_sorted xs = sorted_wrt (\<lambda>a b. \<not> GroupContainer_less b a) xs"

subsection \<open>IsSubset\<close>

text \<open>
  \<^verbatim>\<open>std::includes(first1, last1, first2, last2)\<close> with \<^verbatim>\<open>operator<\<close>: it walks both
  ranges, fails when the second range's element is smaller than the first range's or the
  first range is exhausted, and advances the second range when neither element is smaller.
\<close>

fun std_includes :: "GroupContainer list \<Rightarrow> GroupContainer list \<Rightarrow> bool" where
  "std_includes xs [] = True"
| "std_includes [] (y # ys) = False"
| "std_includes (x # xs) (y # ys) =
     (if GroupContainer_less y x then False
      else if \<not> GroupContainer_less x y then std_includes xs ys
      else std_includes xs (y # ys))"

definition IsSubset :: "Group \<Rightarrow> Group \<Rightarrow> bool" where
  "IsSubset set_group subset_group =
     std_includes (GetRoster set_group) (GetRoster subset_group)"

section \<open>BulkRound.hpp\<close>

subsection \<open>Descriptor\<close>

text \<open>
  \<^verbatim>\<open>class Descriptor\<close>: the length of the message, the anonymous Diffie-Hellman public
  value, one hash per group member for the xor messages, and the hash of the cleartext.
\<close>

record Descriptor =
  Length :: int
  PublicDh :: QByteArray
  XorMessageHashes :: "QByteArray list"
  CleartextHash :: QByteArray

subsection \<open>Mask generation and xor aggregation\<close>

text \<open>
  \<^verbatim>\<open>Xor\<close>, \<^verbatim>\<open>CreateDescriptor\<close>, \<^verbatim>\<open>GenerateXorMessage\<close>, \<^verbatim>\<open>GenerateXorMessages\<close>,
  \<^verbatim>\<open>ProcessMessage\<close>, \<^verbatim>\<open>ProcessMessages\<close> and \<^verbatim>\<open>ShuffleFinished\<close> are declared in
  BulkRound.hpp and defined outside the sources; the Diffie-Hellman primitive, the seeded
  random generator, the hash, the shuffle and the network are external. The definitions of
  this subsection follow the spec (4.2, 4.3, 4.5, 7, 8 and 9).

  The primitives are parameters: \<open>DH pub priv\<close> is the shared secret derived from a public
  and a private value, \<open>rng seed k\<close> is byte \<open>k\<close> of the keystream seeded with \<open>seed\<close>,
  \<open>H\<close> is the hash, \<open>dh_size\<close> and \<open>hash_size\<close> are the byte lengths of a Diffie-Hellman
  public value and of a hash, and \<open>shuffle\<close> is the order in which the shuffle round
  hands the descriptors out.
\<close>

text \<open>Modelled from the spec: the error kinds of a round (4.2, 7 and 9).\<close>

datatype error =
  LengthMismatch | MalformedDescriptor | MalformedMessage | AnonIndexNotFound | HashMismatch

text \<open>
  Modelled from the spec: the body of \<^verbatim>\<open>Xor\<close> is missing. The xor of two byte arrays
  requires equal lengths and fails with a length mismatch otherwise; \<open>xor_all\<close> folds it
  over a list of byte arrays.
\<close>

definition Xor :: "QByteArray \<Rightarrow> QByteArray \<Rightarrow> error + QByteArray" where
  "Xor t1 t2 =
     (if length t1 = length t2 then Inr (map2 (XOR) t1 t2) else Inl LengthMismatch)"

fun xor_all :: "QByteArray \<Rightarrow> QByteArray list \<Rightarrow> error + QByteArray" where
  "xor_all acc [] = Inr acc"
| "xor_all acc (m # ms) =
     (case Xor acc m of Inl e \<Rightarrow> Inl e | Inr acc' \<Rightarrow> xor_all acc' ms)"

text \<open>
  Modelled from the spec: the mask engine is missing. A mask is the keystream seeded with
  a shared secret, cut to exactly the requested length.
\<close>

definition mask :: "(QByteArray \<Rightarrow> nat \<Rightarrow> byte) \<Rightarrow> QByteArray \<Rightarrow> int \<Rightarrow> QByteArray" where
  "mask rng seed len = map (rng seed) [0..<nat len]"

text \<open>
  Modelled from the spec: a member of the round. Every member of the group sends exactly
  one message per round, so a member has its static Diffie-Hellman key pair, the anonymous
  key pair it creates for the round and its cleartext.
\<close>

record Member =
  dh_private :: QByteArray
  dh_public :: QByteArray
  anon_dh_private :: QByteArray
  anon_dh_public :: QByteArray
  cleartext :: QByteArray

text \<open>
  Modelled from the spec: the body of \<^verbatim>\<open>CreateDescriptor(data)\<close> is missing. The
  member at group index \<open>i\<close> derives every member's mask from its anonymous private value
  and that member's static public value (\<open>pubs\<close>, in group order), computes its own
  contribution as the cleartext xored with all other members' masks, and publishes the
  length, the anonymous public value, the hash of every member's contribution (its own
  included) and the hash of the cleartext. The result is the descriptor and the member's
  own xor message. \<open>others i xs\<close> is \<open>xs\<close> without the entry at index \<open>i\<close>.
\<close>

definition others :: "nat \<Rightarrow> 'a list \<Rightarrow> 'a list" where
  "others i xs = take i xs @ drop (Suc i) xs"

definition CreateDescriptor ::
  "(QByteArray \<Rightarrow> QByteArray) \<Rightarrow> (QByteArray \<Rightarrow> QByteArray \<Rightarrow> QByteArray) \<Rightarrow>
   (QByteArray \<Rightarrow> nat \<Rightarrow> byte) \<Rightarrow> QByteArray list \<Rightarrow> nat \<Rightarrow> Member \<Rightarrow>
   error + (Descriptor \<times> QByteArray)" where
  "CreateDescriptor H DH rng pubs i me =
     (let len = int (length (cleartext me));
          masks = map (\<lambda>pub. mask rng (DH pub (anon_dh_private me)) len) pubs
      in case xor_all (cleartext me) (others i masks) of
           Inl e \<Rightarrow> Inl e
         | Inr my_xor_message \<Rightarrow>
             Inr (\<lparr>Length = len,
                   PublicDh = anon_dh_public me,
                   XorMessageHashes = map H (masks[i := my_xor_message]),
                   CleartextHash = H (cleartext me)\<rparr>,
                  my_xor_message))"

text \<open>
  Modelled from the spec: the validation of a parsed descriptor (4.2): the length is not
  negative, there is one xor hash per group member, the Diffie-Hellman public value has
  the length of the scheme and every hash has the length of the hash primitive.
\<close>

definition valid_descriptor :: "nat \<Rightarrow> nat \<Rightarrow> nat \<Rightarrow> Descriptor \<Rightarrow> bool" where
  "valid_descriptor n dh_size hash_size des =
     (0 \<le> Length des
      \<and> length (XorMessageHashes des) = n
      \<and> length (PublicDh des) = dh_size
      \<and> list_all (\<lambda>h. length h = hash_size) (XorMessageHashes des)
      \<and> length (CleartextHash des) = hash_size)"

text \<open>
  Modelled from the spec: a member's anonymous index is the slot whose descriptor carries
  its anonymous Diffie-Hellman public value (4.5); \<open>None\<close> when no descriptor does.
\<close>

fun my_index :: "QByteArray \<Rightarrow> Descriptor list \<Rightarrow> nat option" where
  "my_index dh [] = None"
| "my_index dh (des # rest) =
     (if PublicDh des = dh then Some 0 else map_option Suc (my_index dh rest))"

text \<open>
  Modelled from the spec: the body of \<^verbatim>\<open>GenerateXorMessage(idx)\<close> is missing. For its
  own slot (\<open>idx = my_idx\<close>) a member sends the xor message it prepared; for any other slot
  it sends the keystream seeded with the secret shared between the slot's anonymous public
  value and its own static private value, of the length the descriptor gives.
  \<^verbatim>\<open>GenerateXorMessages()\<close> concatenates the xor messages for slot 0, slot 1, ... in
  slot order.
\<close>

definition GenerateXorMessage ::
  "(QByteArray \<Rightarrow> QByteArray \<Rightarrow> QByteArray) \<Rightarrow> (QByteArray \<Rightarrow> nat \<Rightarrow> byte) \<Rightarrow>
   QByteArray \<Rightarrow> nat \<Rightarrow> QByteArray \<Rightarrow> Descriptor list \<Rightarrow> nat \<Rightarrow> QByteArray" where
  "GenerateXorMessage DH rng my_dh_private my_idx my_xor_message descriptors idx =
     (if idx = my_idx then my_xor_message
      else mask rng (DH (PublicDh (descriptors ! idx)) my_dh_private)
             (Length (descriptors ! idx)))"

definition GenerateXorMessages ::
  "(QByteArray \<Rightarrow> QByteArray \<Rightarrow> QByteArray) \<Rightarrow> (QByteArray \<Rightarrow> nat \<Rightarrow> byte) \<Rightarrow>
   QByteArray \<Rightarrow> nat \<Rightarrow> QByteArray \<Rightarrow> Descriptor list \<Rightarrow> QByteArray" where
  "GenerateXorMessages DH rng my_dh_private my_idx my_xor_message descriptors =
     concat (map (GenerateXorMessage DH rng my_dh_private my_idx my_xor_message descriptors)
               [0..<length descriptors])"

text \<open>
  Modelled from the spec: the body of \<^verbatim>\<open>ShuffleFinished()\<close> is missing. A member takes
  the descriptors in slot order from the shuffle. A descriptor that fails validation is a
  malformed descriptor; a shuffle output that has not one descriptor per group member, or
  in which an anonymous Diffie-Hellman public value appears twice, is a malformed message
  and ends the round; a member that finds its anonymous public value in no descriptor ends
  with a missing anonymous index. Otherwise the member generates its transmission.
\<close>

definition ShuffleFinished ::
  "(QByteArray \<Rightarrow> QByteArray \<Rightarrow> QByteArray) \<Rightarrow> (QByteArray \<Rightarrow> nat \<Rightarrow> byte) \<Rightarrow>
   nat \<Rightarrow> nat \<Rightarrow> nat \<Rightarrow> Member \<Rightarrow> QByteArray \<Rightarrow> Descriptor list \<Rightarrow> error + QByteArray" where
  "ShuffleFinished DH rng n dh_size hash_size me my_xor_message descriptors =
     (if \<not> list_all (valid_descriptor n dh_size hash_size) descriptors
      then Inl MalformedDescriptor
      else if length descriptors \<noteq> n \<or> \<not> distinct (map PublicDh descriptors)
      then Inl MalformedMessage
      else case my_index (anon_dh_public me) descriptors of
             None \<Rightarrow> Inl AnonIndexNotFound
           | Some my_idx \<Rightarrow>
               Inr (GenerateXorMessages DH rng (dh_private me) my_idx my_xor_message
                      descriptors))"

text \<open>
  Modelled from the spec: the expected size of a transmission is the sum of the
  descriptor lengths, and the bytes of slot \<open>s\<close> start after the bytes of the slots
  before it.
\<close>

definition expected_bulk_size :: "Descriptor list \<Rightarrow> nat" where
  "expected_bulk_size descriptors = sum_list (map (\<lambda>des. nat (Length des)) descriptors)"

definition slot_offset :: "Descriptor list \<Rightarrow> nat \<Rightarrow> nat" where
  "slot_offset descriptors s = expected_bulk_size (take s descriptors)"

text \<open>
  Modelled from the spec: what a transmission contributes to a slot, the bytes at the
  slot's offset of the length the slot's descriptor gives.
\<close>

definition contribution :: "Descriptor list \<Rightarrow> nat \<Rightarrow> QByteArray \<Rightarrow> QByteArray" where
  "contribution descriptors s m =
     take (nat (Length (descriptors ! s))) (drop (slot_offset descriptors s) m)"

text \<open>
  Modelled from the spec: the bodies of \<^verbatim>\<open>ProcessMessage(des_index, msg_index)\<close> and
  \<^verbatim>\<open>ProcessMessages()\<close> are missing. The cleartext of a slot is the xor, over all
  members' transmissions, of the bytes at offset \<open>msg_index\<close> of the length the slot's
  descriptor gives. It is verified: its hash is the descriptor's cleartext hash, and the
  hash of what each member sent for the slot is the xor hash the descriptor publishes for
  that member; a mismatch is a hash mismatch (the round enters blame).
  \<^verbatim>\<open>ProcessMessages()\<close> does so for every slot in slot order; \<open>collect\<close> gathers the
  results and stops at the first failure.
\<close>

definition ProcessMessage ::
  "(QByteArray \<Rightarrow> QByteArray) \<Rightarrow> Descriptor list \<Rightarrow> QByteArray list \<Rightarrow> nat \<Rightarrow> nat \<Rightarrow>
   error + QByteArray" where
  "ProcessMessage H descriptors messages des_index msg_index =
     (let des = descriptors ! des_index;
          len = nat (Length des);
          parts = map (\<lambda>m. take len (drop msg_index m)) messages
      in case xor_all (replicate len 0) parts of
           Inl e \<Rightarrow> Inl e
         | Inr cleartext_s \<Rightarrow>
             if H cleartext_s = CleartextHash des \<and> map H parts = XorMessageHashes des
             then Inr cleartext_s
             else Inl HashMismatch)"

fun collect :: "(error + 'a) list \<Rightarrow> error + 'a list" where
  "collect [] = Inr []"
| "collect (r # rs) =
     (case r of
        Inl e \<Rightarrow> Inl e
      | Inr x \<Rightarrow> (case collect rs of Inl e \<Rightarrow> Inl e | Inr xs \<Rightarrow> Inr (x # xs)))"

definition ProcessMessages ::
  "(QByteArray \<Rightarrow> QByteArray) \<Rightarrow> Descriptor list \<Rightarrow> QByteArray list \<Rightarrow>
   error + QByteArray list" where
  "ProcessMessages H descriptors messages =
     collect (map (\<lambda>s. ProcessMessage H descriptors messages s (slot_offset descriptors s))
                [0..<length descriptors])"

text \<open>
  Modelled from the spec: a round of honest members. Every member creates its descriptor
  and submits it to the shuffle; the shuffle hands the descriptors to every member in one
  order; every member checks them, finds its slot and broadcasts its transmission; a
  transmission that has not the expected size is a malformed message; the transmissions
  are aggregated and verified. The result is the descriptors in slot order, the
  transmissions in group order and the recovered cleartexts in slot order.
\<close>

definition honest_round ::
  "(QByteArray \<Rightarrow> QByteArray) \<Rightarrow> (QByteArray \<Rightarrow> QByteArray \<Rightarrow> QByteArray) \<Rightarrow>
   (QByteArray \<Rightarrow> nat \<Rightarrow> byte) \<Rightarrow> nat \<Rightarrow> nat \<Rightarrow> (Descriptor list \<Rightarrow> Descriptor list) \<Rightarrow>
   Member list \<Rightarrow> error + (Descriptor list \<times> QByteArray list \<times> QByteArray list)" where
  "honest_round H DH rng dh_size hash_size shuffle members =
     (let n = length members;
          pubs = map dh_public members
      in case collect (map (\<lambda>i. CreateDescriptor H DH rng pubs i (members ! i)) [0..<n]) of
           Inl e \<Rightarrow> Inl e
         | Inr created \<Rightarrow>
             (let descriptors = shuffle (map fst created)
              in case collect (map (\<lambda>i. ShuffleFinished DH rng n dh_size hash_size
                                          (members ! i) (snd (created ! i)) descriptors)
                                 [0..<n]) of
                   Inl e \<Rightarrow> Inl e
                 | Inr messages \<Rightarrow>
                     if \<not> list_all (\<lambda>m. length m = expected_bulk_size descriptors) messages
                     then Inl MalformedMessage
                     else (case ProcessMessages H descriptors messages of
                             Inl e \<Rightarrow> Inl e
                           | Inr cleartexts \<Rightarrow> Inr (descriptors, messages, cleartexts))))"

section \<open>Properties of Group.hpp\<close>

subsection \<open>The order on roster entries\<close>

lemma QByteArray_less_iff: "QByteArray_less xs ys \<longleftrightarrow> xs < ys"
  by (induction xs ys rule: QByteArray_less.induct) auto

lemma GroupContainer_less_iff: "GroupContainer_less a b \<longleftrightarrow> roster_key a < roster_key b"
  by (cases "second a"; cases "second b")
     (auto simp: GroupContainer_less_def roster_key_def QByteArray_less_iff
        less_prod_def less_eq_prod_def)

lemma roster_key_eqD: "roster_key a = roster_key b \<Longrightarrow> a = b"
  by (cases a; cases b) (auto simp: roster_key_def AsymmetricKey.expand)

lemma inj_roster_key: "inj roster_key"
  by (rule injI) (rule roster_key_eqD)

lemma roster_sorted_iff: "roster_sorted xs \<longleftrightarrow> sorted (map roster_key xs)"
  by (induction xs) (auto simp: roster_sorted_def GroupContainer_less_iff not_less)

subsection \<open>Sorting a roster\<close>

lemma mset_insert_sorted: "mset (insert_sorted x xs) = add_mset x (mset xs)"
  by (induction xs) auto

lemma mset_qSort: "mset (qSort xs) = mset xs"
  by (induction xs) (auto simp: mset_insert_sorted)

lemma set_insert_sorted: "set (insert_sorted x xs) = insert x (set xs)"
  by (induction xs) auto

lemma sorted_insert_sorted:
  "sorted (map roster_key xs) \<Longrightarrow> sorted (map roster_key (insert_sorted x xs))"
  by (induction xs) (auto simp: set_insert_sorted GroupContainer_less_iff)

lemma sorted_qSort: "sorted (map roster_key (qSort xs))"
  by (induction xs) (auto simp: sorted_insert_sorted)

lemma qSort_sort: "map roster_key (qSort xs) = sort (map roster_key xs)"
  by (rule properties_for_sort [symmetric]) (simp_all add: mset_qSort sorted_qSort)

lemma qSort_mset_cong:
  assumes "mset xs = mset ys"
  shows "qSort xs = qSort ys"
proof -
  from assms have "mset (map roster_key xs) = mset (map roster_key ys)" by simp
  then have "sort (map roster_key xs) = sort (map roster_key ys)"
    by (intro properties_for_sort) simp_all
  then have "map roster_key (qSort xs) = map roster_key (qSort ys)"
    by (simp add: qSort_sort)
  then show ?thesis by (rule map_injective) (rule inj_roster_key)
qed

subsection \<open>Removing duplicates by PeerId\<close>

lemma set_dedup:
  "set (dedup R) = {x \<in> set R. \<forall>y \<in> set R. first y = first x \<longrightarrow> \<not> GroupContainer_less y x}"
  by (auto simp: dedup_def list_all_iff)

lemma distinct_dedup: "distinct (dedup R)"
  by (simp add: dedup_def)

lemma dedup_first_inj:
  assumes "x \<in> set (dedup R)" and "y \<in> set (dedup R)" and "first x = first y"
  shows "x = y"
proof -
  from assms have "\<not> GroupContainer_less y x" and "\<not> GroupContainer_less x y"
    by (auto simp: set_dedup)
  then have "roster_key x = roster_key y"
    by (simp add: GroupContainer_less_iff)
  then show ?thesis by (rule roster_key_eqD)
qed

lemma distinct_first_dedup: "distinct (map first (dedup R))"
  by (simp add: distinct_map distinct_dedup inj_on_def) (blast intro: dedup_first_inj)

lemma distinct_first_qSort:
  "distinct (map first xs) \<Longrightarrow> distinct (map first (qSort xs))"
proof -
  assume d: "distinct (map first xs)"
  have "mset (map first (qSort xs)) = mset (map first xs)" by (simp add: mset_qSort)
  then show ?thesis using d by (metis mset_eq_imp_distinct_iff)
qed

lemma dedup_keeps_every_id: "first ` set (dedup R) = first ` set R"
proof
  show "first ` set (dedup R) \<subseteq> first ` set R" by (auto simp: set_dedup)
next
  show "first ` set R \<subseteq> first ` set (dedup R)"
  proof
    fix i assume "i \<in> first ` set R"
    then obtain x where x: "x \<in> set R" "first x = i" by auto
    define S where "S = {y \<in> set R. first y = i}"
    have fin: "finite (roster_key ` S)" by (simp add: S_def)
    have ne: "roster_key ` S \<noteq> {}" using x by (auto simp: S_def)
    from Min_in [OF fin ne] obtain z where z: "z \<in> S" "roster_key z = Min (roster_key ` S)"
      by auto
    have "\<not> GroupContainer_less y z" if "y \<in> set R" "first y = first z" for y
    proof -
      from that z have "y \<in> S" by (simp add: S_def)
      then have "Min (roster_key ` S) \<le> roster_key y" using fin by simp
      then show ?thesis by (simp add: GroupContainer_less_iff z not_less)
    qed
    with z have "z \<in> set (dedup R)" by (auto simp: set_dedup S_def)
    moreover have "first z = i" using z by (simp add: S_def)
    ultimately show "i \<in> first ` set (dedup R)" by auto
  qed
qed

lemma dedup_distinct_ids:
  assumes "distinct (map first R)"
  shows "dedup R = R"
proof -
  from assms have dR: "distinct R" and inj: "inj_on first (set R)"
    by (simp_all add: distinct_map)
  have "filter (\<lambda>x. list_all (\<lambda>y. first y = first x \<longrightarrow> \<not> GroupContainer_less y x) R) R = R"
  proof (rule filter_True, rule ballI)
    fix x assume x: "x \<in> set R"
    have "\<not> GroupContainer_less y x" if "y \<in> set R" "first y = first x" for y
    proof -
      from inj that x have "y = x" by (auto dest: inj_onD)
      then show ?thesis by (simp add: GroupContainer_less_iff)
    qed
    then show "list_all (\<lambda>y. first y = first x \<longrightarrow> \<not> GroupContainer_less y x) R"
      by (simp add: list_all_iff)
  qed
  then show ?thesis using dR by (simp add: dedup_def)
qed

lemma dedup_mset_cong:
  assumes "mset R' = mset R"
  shows "mset (dedup R') = mset (dedup R)"
proof -
  from assms have "set R' = set R" by (rule mset_eq_setD)
  then have "set (dedup R') = set (dedup R)" by (simp add: set_dedup)
  then show ?thesis
    using distinct_dedup [of R'] distinct_dedup [of R]
    by (simp add: set_eq_iff_mset_eq_distinct)
qed

subsection \<open>The index of a roster\<close>

lemma build_index_other:
  "i \<notin> first ` set xs \<Longrightarrow> build_index xs k m i = m i"
  by (induction xs arbitrary: k m) auto

lemma build_index_nth:
  "distinct (map first xs) \<Longrightarrow> n < length xs \<Longrightarrow>
   build_index xs k m (first (xs ! n)) = Some (k + int n)"
proof (induction xs arbitrary: k m n)
  case Nil
  then show ?case by simp
next
  case (Cons x xs)
  show ?case
  proof (cases n)
    case 0
    have "first x \<notin> first ` set xs" using Cons.prems(1) by auto
    then show ?thesis using 0 by (simp add: build_index_other)
  next
    case (Suc n')
    then have n': "n' < length xs" using Cons.prems(2) by simp
    have d': "distinct (map first xs)" using Cons.prems(1) by simp
    have "build_index xs (k + 1) (m(first x \<mapsto> k)) (first (xs ! n'))
            = Some (k + 1 + int n')"
      by (rule Cons.IH [OF d' n'])
    then show ?thesis using Suc by simp
  qed
qed

text \<open>
  C4. For every input roster \<open>R\<close> the roster of \<open>Group(R)\<close> is sorted ascending by
  \<^verbatim>\<open>operator<\<close>, which is the lexicographic order on (identifier, serialized key bytes,
  dh bytes), so it is \<open>sort(dedup(R))\<close> for the library sort on that key; it is
  duplicate-free by PeerId, holds entries of \<open>R\<close> only and one entry
  for every PeerId of \<open>R\<close> (all of \<open>R\<close> when no PeerId repeats), and is indexed by
  position; and a permutation \<open>R'\<close> of \<open>R\<close> builds the same group.
\<close>

theorem Group_new_canonical:
  "roster_sorted (GetRoster (Group_new sub R leader policy))
   \<and> sorted (map roster_key (GetRoster (Group_new sub R leader policy)))
   \<and> (GroupContainer_less a b \<longleftrightarrow> roster_key a < roster_key b)
   \<and> map roster_key (GetRoster (Group_new sub R leader policy))
       = sort (map roster_key (dedup R))
   \<and> distinct (map first (GetRoster (Group_new sub R leader policy)))
   \<and> set (GetRoster (Group_new sub R leader policy)) \<subseteq> set R
   \<and> first ` set (GetRoster (Group_new sub R leader policy)) = first ` set R
   \<and> (distinct (map first R) \<longrightarrow> mset (GetRoster (Group_new sub R leader policy)) = mset R)
   \<and> (\<forall>i < length (GetRoster (Group_new sub R leader policy)).
         IdtoInt (data (Group_new sub R leader policy))
           (first (GetRoster (Group_new sub R leader policy) ! i)) = Some (int i))
   \<and> (mset R' = mset R \<longrightarrow> Group_new sub R' leader policy = Group_new sub R leader policy)"
proof -
  have roster: "GetRoster (Group_new sub R leader policy) = qSort (dedup R)"
    by (simp add: Group_new_def GetRoster_def GroupData_new_def Let_def)
  have index: "IdtoInt (data (Group_new sub R leader policy))
                 = build_index (qSort (dedup R)) 0 Map.empty"
    by (simp add: Group_new_def GroupData_new_def Let_def)
  have s: "set (qSort (dedup R)) = set (dedup R)"
    by (metis mset_qSort set_mset_mset)
  have d: "distinct (map first (qSort (dedup R)))"
    by (rule distinct_first_qSort) (rule distinct_first_dedup)
  have sub: "set (qSort (dedup R)) \<subseteq> set R"
    unfolding s by (auto simp: set_dedup)
  have ids: "first ` set (qSort (dedup R)) = first ` set R"
    unfolding s by (rule dedup_keeps_every_id)
  have all: "mset (qSort (dedup R)) = mset R" if "distinct (map first R)"
    using dedup_distinct_ids [OF that] by (simp add: mset_qSort)
  have idx: "\<forall>i < length (qSort (dedup R)).
      build_index (qSort (dedup R)) 0 Map.empty (first (qSort (dedup R) ! i)) = Some (int i)"
    using build_index_nth [OF d, of _ 0 Map.empty] by simp
  have perm: "Group_new sub R' leader policy = Group_new sub R leader policy"
    if "mset R' = mset R"
    using qSort_mset_cong [OF dedup_mset_cong [OF that]] by (simp add: Group_new_def)
  show ?thesis
    unfolding roster index
    using d sub ids all idx perm
    by (simp add: roster_sorted_iff sorted_qSort GroupContainer_less_iff qSort_sort)
qed

theorem Group_new_canonical_witness:
  "mset [\<lparr>first = 2, second = AsymmetricKey [7], third = [9]\<rparr>,
         \<lparr>first = 1, second = AsymmetricKey [8], third = [4]\<rparr>,
         \<lparr>first = 1, second = AsymmetricKey [8], third = [3]\<rparr>]
     = mset [\<lparr>first = 1, second = AsymmetricKey [8], third = [3]\<rparr>,
             \<lparr>first = 2, second = AsymmetricKey [7], third = [9]\<rparr>,
             \<lparr>first = 1, second = AsymmetricKey [8], third = [4]\<rparr>]
   \<and> Group_new (\<lambda>r l p. None)
        [\<lparr>first = 2, second = AsymmetricKey [7], third = [9]\<rparr>,
         \<lparr>first = 1, second = AsymmetricKey [8], third = [4]\<rparr>,
         \<lparr>first = 1, second = AsymmetricKey [8], third = [3]\<rparr>] Zero CompleteGroup
     = Group_new (\<lambda>r l p. None)
        [\<lparr>first = 1, second = AsymmetricKey [8], third = [3]\<rparr>,
         \<lparr>first = 2, second = AsymmetricKey [7], third = [9]\<rparr>,
         \<lparr>first = 1, second = AsymmetricKey [8], third = [4]\<rparr>] Zero CompleteGroup
   \<and> GetRoster (Group_new (\<lambda>r l p. None)
        [\<lparr>first = 2, second = AsymmetricKey [7], third = [9]\<rparr>,
         \<lparr>first = 1, second = AsymmetricKey [8], third = [4]\<rparr>,
         \<lparr>first = 1, second = AsymmetricKey [8], third = [3]\<rparr>] Zero CompleteGroup)
     = [\<lparr>first = 1, second = AsymmetricKey [8], third = [3]\<rparr>,
        \<lparr>first = 2, second = AsymmetricKey [7], third = [9]\<rparr>]"
proof -
  let ?a = "\<lparr>first = 1, second = AsymmetricKey [8], third = [3]\<rparr>"
  let ?a' = "\<lparr>first = 1, second = AsymmetricKey [8], third = [4]\<rparr>"
  let ?b = "\<lparr>first = 2, second = AsymmetricKey [7], third = [9]\<rparr>"
  have perm: "mset [?b, ?a', ?a] = mset [?a, ?b, ?a']" by (simp add: add_mset_commute)
  have "Group_new (\<lambda>r l p. None) [?b, ?a', ?a] Zero CompleteGroup
      = Group_new (\<lambda>r l p. None) [?a, ?b, ?a'] Zero CompleteGroup"
    using Group_new_canonical
            [of "\<lambda>r l p. None" "[?a, ?b, ?a']" Zero CompleteGroup ?a ?b "[?b, ?a', ?a]"] perm
    by blast
  moreover have "GetRoster (Group_new (\<lambda>r l p. None) [?b, ?a', ?a] Zero CompleteGroup) = [?a, ?b]"
    by (simp add: Group_new_def GetRoster_def GroupData_new_def dedup_def GroupContainer_less_def)
  ultimately show ?thesis using perm by simp
qed

subsection \<open>Equality of roster entries\<close>

text \<open>
  C5. \<^verbatim>\<open>operator==\<close> joins its three comparisons with \<^verbatim>\<open>||\<close>: two entries that
  share only the identifier compare equal, and \<^verbatim>\<open>operator!=\<close> holds of the same pair,
  so neither operator is the negation of the other.
\<close>

theorem GroupContainer_eq_on_partial_match:
  "GroupContainer_eq \<lparr>first = 1, second = AsymmetricKey [1], third = [2]\<rparr>
                     \<lparr>first = 1, second = AsymmetricKey [3], third = [4]\<rparr>
   \<and> GroupContainer_ne \<lparr>first = 1, second = AsymmetricKey [1], third = [2]\<rparr>
                       \<lparr>first = 1, second = AsymmetricKey [3], third = [4]\<rparr>
   \<and> second \<lparr>first = 1, second = AsymmetricKey [1], third = [2]\<rparr>
       \<noteq> second \<lparr>first = 1, second = AsymmetricKey [3], third = [4]\<rparr>
   \<and> third \<lparr>first = 1, second = AsymmetricKey [1], third = [2]\<rparr>
       \<noteq> third \<lparr>first = 1, second = AsymmetricKey [3], third = [4]\<rparr>"
  by (simp add: GroupContainer_eq_def GroupContainer_ne_def)

theorem GroupContainer_eq_on_partial_match_witness:
  "GroupContainer_eq \<lparr>first = 1, second = AsymmetricKey [1], third = [2]\<rparr>
                     \<lparr>first = 1, second = AsymmetricKey [3], third = [4]\<rparr>
   = GroupContainer_ne \<lparr>first = 1, second = AsymmetricKey [1], third = [2]\<rparr>
                       \<lparr>first = 1, second = AsymmetricKey [3], third = [4]\<rparr>"
  using GroupContainer_eq_on_partial_match by blast

subsection \<open>Subset test\<close>

lemma subset_mset_add_new:
  assumes "x \<notin># A"
  shows "A \<subseteq># add_mset x B \<longleftrightarrow> A \<subseteq># B"
proof
  assume h: "A \<subseteq># add_mset x B"
  show "A \<subseteq># B"
  proof (rule mset_subset_eqI)
    fix a
    show "count A a \<le> count B a"
    proof (cases "a = x")
      case True
      with assms have "count A a = 0" by (simp add: not_in_iff)
      then show ?thesis by linarith
    next
      case False
      with mset_subset_eq_count [OF h, of a] show ?thesis by simp
    qed
  qed
next
  assume h: "A \<subseteq># B"
  show "A \<subseteq># add_mset x B"
  proof (rule mset_subset_eqI)
    fix a
    from mset_subset_eq_count [OF h, of a] show "count A a \<le> count (add_mset x B) a"
      by simp
  qed
qed

lemma std_includes_mset:
  "sorted (map roster_key xs) \<Longrightarrow> sorted (map roster_key ys) \<Longrightarrow>
   std_includes xs ys \<longleftrightarrow> mset ys \<subseteq># mset xs"
proof (induction xs ys rule: std_includes.induct)
  case (1 xs)
  then show ?case by simp
next
  case (2 y ys)
  then show ?case by simp
next
  case (3 x xs y ys)
  from "3.prems" have sx: "sorted (map roster_key xs)" and sy: "sorted (map roster_key ys)"
    and lx: "\<forall>z \<in> set xs. roster_key x \<le> roster_key z"
    and ly: "\<forall>z \<in> set ys. roster_key y \<le> roster_key z"
    by auto
  consider (lt) "roster_key y < roster_key x" | (eq) "roster_key x = roster_key y"
    | (gt) "roster_key x < roster_key y"
    by (rule linorder_cases [of "roster_key x" "roster_key y"]) auto
  then show ?case
  proof cases
    case lt
    have ny: "y \<notin> set (x # xs)" using lt lx by auto
    have "\<not> mset (y # ys) \<subseteq># mset (x # xs)"
    proof
      assume "mset (y # ys) \<subseteq># mset (x # xs)"
      moreover have "y \<in># mset (y # ys)" by simp
      ultimately have "y \<in># mset (x # xs)" by (rule mset_subset_eqD)
      then show False using ny by simp
    qed
    then show ?thesis using lt by (simp add: GroupContainer_less_iff)
  next
    case eq
    then have xy: "x = y" by (rule roster_key_eqD)
    have "std_includes xs ys \<longleftrightarrow> mset ys \<subseteq># mset xs"
      using "3.IH"(1) sx sy eq by (simp add: GroupContainer_less_iff)
    then show ?thesis using xy by (simp add: GroupContainer_less_iff)
  next
    case gt
    have ngt: "\<not> roster_key y < roster_key x" using gt by simp
    have "x \<notin> set (y # ys)" using gt ly by auto
    then have nx: "x \<notin># mset (y # ys)" by simp
    have "std_includes xs (y # ys) \<longleftrightarrow> mset (y # ys) \<subseteq># mset xs"
      using "3.IH"(2) sx "3.prems"(2) gt ngt by (simp add: GroupContainer_less_iff)
    then show ?thesis using gt ngt subset_mset_add_new [OF nx, of "mset xs"]
      by (simp add: GroupContainer_less_iff)
  qed
qed

lemma distinct_subset_mset_iff:
  assumes "distinct ys"
  shows "mset ys \<subseteq># mset xs \<longleftrightarrow> set ys \<subseteq> set xs"
proof
  assume "mset ys \<subseteq># mset xs"
  then have "set_mset (mset ys) \<subseteq> set_mset (mset xs)" by (rule set_mset_mono)
  then show "set ys \<subseteq> set xs" by simp
next
  assume sub: "set ys \<subseteq> set xs"
  show "mset ys \<subseteq># mset xs"
  proof (rule mset_subset_eqI)
    fix a
    show "count (mset ys) a \<le> count (mset xs) a"
    proof (cases "a \<in> set ys")
      case True
      then have "count (mset ys) a = 1" using assms by (simp add: distinct_count_atmost_1)
      moreover have "a \<in> set xs" using True sub by auto
      then have "1 \<le> count (mset xs) a" by (simp add: Suc_le_eq)
      ultimately show ?thesis by simp
    next
      case False
      then have "count (mset ys) a = 0" by (simp add: count_mset_0_iff)
      then show ?thesis by linarith
    qed
  qed
qed

text \<open>
  C9. For groups whose rosters are sorted ascending by \<^verbatim>\<open>operator<\<close> and, as the
  roster of a group is, duplicate-free by PeerId (which is needed of the subset's roster
  only), \<^verbatim>\<open>IsSubset(A, B)\<close> is true exactly when every roster entry of \<open>B\<close> occurs in
  the roster of \<open>A\<close>.
\<close>

theorem IsSubset_sorted_rosters:
  assumes "roster_sorted (GetRoster A)"
    and "roster_sorted (GetRoster B)"
    and "distinct (map first (GetRoster B))"
  shows "IsSubset A B \<longleftrightarrow> set (GetRoster B) \<subseteq> set (GetRoster A)"
proof -
  have m: "IsSubset A B \<longleftrightarrow> mset (GetRoster B) \<subseteq># mset (GetRoster A)"
    unfolding IsSubset_def using assms(1,2)
    by (intro std_includes_mset) (simp_all add: roster_sorted_iff)
  have "distinct (GetRoster B)" using assms(3) by (simp add: distinct_map)
  then show ?thesis by (simp add: m distinct_subset_mset_iff)
qed

theorem IsSubset_sorted_rosters_witness:
  "roster_sorted (GetRoster (Group (GroupData_new
       [\<lparr>first = 1, second = AsymmetricKey [4], third = [5]\<rparr>,
        \<lparr>first = 2, second = AsymmetricKey [6], third = [7]\<rparr>] [1 \<mapsto> 0, 2 \<mapsto> 1] Zero 0) None))
   \<and> roster_sorted (GetRoster (Group (GroupData_new
       [\<lparr>first = 2, second = AsymmetricKey [6], third = [7]\<rparr>] [2 \<mapsto> 0] Zero 0) None))
   \<and> distinct (map first (GetRoster (Group (GroupData_new
       [\<lparr>first = 2, second = AsymmetricKey [6], third = [7]\<rparr>] [2 \<mapsto> 0] Zero 0) None)))
   \<and> IsSubset
       (Group (GroupData_new
          [\<lparr>first = 1, second = AsymmetricKey [4], third = [5]\<rparr>,
           \<lparr>first = 2, second = AsymmetricKey [6], third = [7]\<rparr>] [1 \<mapsto> 0, 2 \<mapsto> 1] Zero 0) None)
       (Group (GroupData_new
          [\<lparr>first = 2, second = AsymmetricKey [6], third = [7]\<rparr>] [2 \<mapsto> 0] Zero 0) None)
   \<and> \<not> IsSubset
       (Group (GroupData_new
          [\<lparr>first = 2, second = AsymmetricKey [6], third = [7]\<rparr>] [2 \<mapsto> 0] Zero 0) None)
       (Group (GroupData_new
          [\<lparr>first = 1, second = AsymmetricKey [4], third = [5]\<rparr>,
           \<lparr>first = 2, second = AsymmetricKey [6], third = [7]\<rparr>] [1 \<mapsto> 0, 2 \<mapsto> 1] Zero 0) None)"
proof -
  let ?A = "Group (GroupData_new
          [\<lparr>first = 1, second = AsymmetricKey [4], third = [5]\<rparr>,
           \<lparr>first = 2, second = AsymmetricKey [6], third = [7]\<rparr>] [1 \<mapsto> 0, 2 \<mapsto> 1] Zero 0) None"
  let ?B = "Group (GroupData_new
          [\<lparr>first = 2, second = AsymmetricKey [6], third = [7]\<rparr>] [2 \<mapsto> 0] Zero 0) None"
  have a: "roster_sorted (GetRoster ?A)"
    by (simp add: GetRoster_def GroupData_new_def roster_sorted_def GroupContainer_less_def)
  have b: "roster_sorted (GetRoster ?B)"
    by (simp add: GetRoster_def GroupData_new_def roster_sorted_def)
  have da: "distinct (map first (GetRoster ?A))"
    by (simp add: GetRoster_def GroupData_new_def)
  have db: "distinct (map first (GetRoster ?B))"
    by (simp add: GetRoster_def GroupData_new_def)
  have s: "set (GetRoster ?B) \<subseteq> set (GetRoster ?A)"
    by (simp add: GetRoster_def GroupData_new_def)
  have n: "\<not> set (GetRoster ?A) \<subseteq> set (GetRoster ?B)"
    by (simp add: GetRoster_def GroupData_new_def)
  from IsSubset_sorted_rosters [OF a b db] s have "IsSubset ?A ?B" by blast
  moreover from IsSubset_sorted_rosters [OF b a da] n have "\<not> IsSubset ?B ?A" by blast
  ultimately show ?thesis using a b db by blast
qed

subsection \<open>Size of a group\<close>

text \<open>
  C10. Both constructors of \<^verbatim>\<open>GroupData\<close> establish \<open>Size = Roster.count()\<close>, so
  \<^verbatim>\<open>Group::Count()\<close> of a group holding such data is the number of roster entries.
\<close>

theorem GroupData_Size_is_roster_count:
  "Size (GroupData_default default_id) = int (length (Roster (GroupData_default default_id)))
   \<and> Size (GroupData_new roster id_to_int leader subgroup_policy)
       = int (length (Roster (GroupData_new roster id_to_int leader subgroup_policy)))
   \<and> Count (Group (GroupData_default default_id) sub)
       = int (length (GetRoster (Group (GroupData_default default_id) sub)))
   \<and> Count (Group (GroupData_new roster id_to_int leader subgroup_policy) sub)
       = int (length (GetRoster (Group (GroupData_new roster id_to_int leader subgroup_policy) sub)))"
  by (simp add: GroupData_default_def GroupData_new_def Count_def GetRoster_def)

section \<open>Properties of BulkRound.hpp\<close>

subsection \<open>Xor aggregation in an honest round\<close>

lemma xor_all_Inr:
  "length acc = L \<Longrightarrow> \<forall>m \<in> set ms. length m = L \<Longrightarrow>
   xor_all acc ms = Inr (foldl (\<lambda>a m. map2 (XOR) a m) acc ms)
   \<and> length (foldl (\<lambda>a m. map2 (XOR) a m) acc ms) = L"
  by (induction ms arbitrary: acc) (simp_all add: Xor_def)

lemma foldl_xor_nth:
  "length acc = L \<Longrightarrow> \<forall>m \<in> set ms. length m = L \<Longrightarrow> k < L \<Longrightarrow>
   foldl (\<lambda>a m. map2 (XOR) a m) acc ms ! k = foldl (XOR) (acc ! k) (map (\<lambda>m. m ! k) ms)"
  by (induction ms arbitrary: acc) simp_all

lemma foldl_xor_word:
  fixes a :: byte
  shows "foldl (XOR) a xs = a XOR foldl (XOR) 0 xs"
proof (induction xs arbitrary: a)
  case Nil
  then show ?case by simp
next
  case (Cons x xs)
  have "foldl (XOR) a (x # xs) = foldl (XOR) (a XOR x) xs" by simp
  also have "\<dots> = (a XOR x) XOR foldl (XOR) 0 xs" by (rule Cons.IH)
  also have "\<dots> = a XOR (x XOR foldl (XOR) 0 xs)" by (simp add: xor.assoc)
  also have "x XOR foldl (XOR) 0 xs = foldl (XOR) x xs" by (rule Cons.IH [symmetric])
  finally show ?case by simp
qed

lemma foldl_xor_word_append:
  fixes a :: byte
  shows "foldl (XOR) 0 (xs @ a # ys) = foldl (XOR) 0 xs XOR a XOR foldl (XOR) 0 ys"
proof -
  have "foldl (XOR) 0 (xs @ a # ys) = foldl (XOR) (foldl (XOR) 0 xs XOR a) ys" by simp
  also have "\<dots> = (foldl (XOR) 0 xs XOR a) XOR foldl (XOR) 0 ys" by (rule foldl_xor_word)
  finally show ?thesis by (simp add: xor.assoc)
qed

lemma foldl_xor_word_append2:
  fixes c :: byte
  shows "foldl (XOR) c (xs @ ys) = c XOR foldl (XOR) 0 xs XOR foldl (XOR) 0 ys"
proof -
  have "foldl (XOR) c (xs @ ys) = foldl (XOR) (foldl (XOR) c xs) ys" by simp
  also have "\<dots> = foldl (XOR) c xs XOR foldl (XOR) 0 ys" by (rule foldl_xor_word)
  also have "foldl (XOR) c xs = c XOR foldl (XOR) 0 xs" by (rule foldl_xor_word)
  finally show ?thesis by (simp add: xor.assoc)
qed

lemma xor_closes_to_cleartext:
  assumes o: "i < length masks"
    and lens: "\<forall>m \<in> set masks. length m = length c"
  shows "\<exists>own. xor_all c (others i masks) = Inr own \<and> length own = length c
           \<and> xor_all (replicate (length c) 0) (masks[i := own]) = Inr c"
proof -
  let ?bx = "\<lambda>a m. map2 (XOR) a m"
  let ?L = "length c"
  let ?own = "foldl ?bx c (others i masks)"
  have lo: "\<forall>m \<in> set (others i masks). length m = ?L"
    using lens by (auto simp: others_def dest: in_set_takeD in_set_dropD)
  from xor_all_Inr [OF refl lo] have own: "xor_all c (others i masks) = Inr ?own"
    and lown: "length ?own = ?L" by simp_all
  have lu: "\<forall>m \<in> set (masks[i := ?own]). length m = ?L"
    using lens lown by (auto dest!: set_update_subset_insert [THEN subsetD])
  have lz: "length (replicate ?L (0::byte)) = ?L" by simp
  from xor_all_Inr [OF lz lu]
  have tot: "xor_all (replicate ?L 0) (masks[i := ?own]) = Inr (foldl ?bx (replicate ?L 0) (masks[i := ?own]))"
    and ltot: "length (foldl ?bx (replicate ?L 0) (masks[i := ?own])) = ?L" by simp_all
  have "foldl ?bx (replicate ?L 0) (masks[i := ?own]) = c"
  proof (rule nth_equalityI)
    show "length (foldl ?bx (replicate ?L 0) (masks[i := ?own])) = length c" by (rule ltot)
  next
    fix k assume "k < length (foldl ?bx (replicate ?L 0) (masks[i := ?own]))"
    then have k: "k < ?L" by (simp add: ltot)
    let ?A = "map (\<lambda>m. m ! k) (take i masks)"
    let ?B = "map (\<lambda>m. m ! k) (drop (Suc i) masks)"
    have ownk: "?own ! k = c ! k XOR foldl (XOR) 0 ?A XOR foldl (XOR) 0 ?B"
      using foldl_xor_nth [OF refl lo k]
      by (simp add: others_def foldl_xor_word_append2 del: foldl_append)
    have "foldl ?bx (replicate ?L 0) (masks[i := ?own]) ! k
        = foldl (XOR) (replicate ?L 0 ! k) (map (\<lambda>m. m ! k) (masks[i := ?own]))"
      by (rule foldl_xor_nth [OF lz lu k])
    also have "\<dots> = foldl (XOR) 0 (?A @ (?own ! k) # ?B)"
      using k o by (simp add: upd_conv_take_nth_drop del: foldl_append)
    also have "\<dots> = foldl (XOR) 0 ?A XOR (?own ! k) XOR foldl (XOR) 0 ?B"
      by (rule foldl_xor_word_append)
    also have "\<dots> = c ! k"
      unfolding ownk by (simp add: xor.assoc xor.left_commute xor.commute)
    finally show "foldl ?bx (replicate ?L 0) (masks[i := ?own]) ! k = c ! k" .
  qed
  with own lown tot show ?thesis by simp
qed

lemma length_mask: "length (mask rng seed (int n)) = n"
  by (simp add: mask_def)

lemma others_update: "others i (xs[i := a]) = others i xs"
  by (simp add: others_def)

lemma CreateDescriptor_honest:
  assumes i: "i < length pubs"
  shows "\<exists>own.
           CreateDescriptor H DH rng pubs i me
             = Inr (\<lparr>Length = int (length (cleartext me)),
                     PublicDh = anon_dh_public me,
                     XorMessageHashes =
                       map H ((map (\<lambda>pub. mask rng (DH pub (anon_dh_private me))
                                          (int (length (cleartext me)))) pubs)[i := own]),
                     CleartextHash = H (cleartext me)\<rparr>, own)
           \<and> length own = length (cleartext me)
           \<and> xor_all (cleartext me)
                 (others i (map (\<lambda>pub. mask rng (DH pub (anon_dh_private me))
                                      (int (length (cleartext me)))) pubs)) = Inr own
           \<and> xor_all (replicate (length (cleartext me)) 0)
                 ((map (\<lambda>pub. mask rng (DH pub (anon_dh_private me))
                                (int (length (cleartext me)))) pubs)[i := own])
               = Inr (cleartext me)"
proof -
  let ?c = "cleartext me"
  let ?masks = "map (\<lambda>pub. mask rng (DH pub (anon_dh_private me)) (int (length ?c))) pubs"
  have i': "i < length ?masks" using i by simp
  have lens: "\<forall>m \<in> set ?masks. length m = length ?c" by (auto simp: length_mask)
  from xor_closes_to_cleartext [OF i' lens] obtain own where
    own: "xor_all ?c (others i ?masks) = Inr own"
    and lown: "length own = length ?c"
    and tot: "xor_all (replicate (length ?c) 0) (?masks[i := own]) = Inr ?c"
    by blast
  have "CreateDescriptor H DH rng pubs i me
          = Inr (\<lparr>Length = int (length ?c), PublicDh = anon_dh_public me,
                  XorMessageHashes = map H (?masks[i := own]), CleartextHash = H ?c\<rparr>, own)"
    using own by (simp add: CreateDescriptor_def Let_def)
  with own lown tot show ?thesis by blast
qed

lemma collect_map_Inr:
  "\<forall>x \<in> set xs. f x = Inr (g x) \<Longrightarrow> collect (map f xs) = Inr (map g xs)"
  by (induction xs) simp_all

lemma my_index_nth:
  "distinct (map PublicDh ds) \<Longrightarrow> k < length ds \<Longrightarrow> my_index (PublicDh (ds ! k)) ds = Some k"
proof (induction ds arbitrary: k)
  case Nil
  then show ?case by simp
next
  case (Cons d ds)
  show ?case
  proof (cases k)
    case 0
    then show ?thesis by simp
  next
    case (Suc k')
    then have k': "k' < length ds" using Cons.prems(2) by simp
    have d': "distinct (map PublicDh ds)" using Cons.prems(1) by simp
    have "PublicDh (ds ! k') \<in> PublicDh ` set ds" using k' by simp
    then have "PublicDh d \<noteq> PublicDh (ds ! k')" using Cons.prems(1) by auto
    then show ?thesis using Suc Cons.IH [OF d' k'] by simp
  qed
qed

lemma slice_concat:
  assumes s: "s < n" and lens: "\<forall>t < n. length (g t) = len t"
  shows "take (len s) (drop (sum_list (map len [0..<s])) (concat (map g [0..<n]))) = g s"
proof -
  have split: "[0..<n] = [0..<s] @ s # [Suc s..<n]"
    using s upt_add_eq_append [of 0 s "n - s"] by (simp add: upt_conv_Cons)
  have e: "map (\<lambda>t. length (g t)) [0..<s] = map len [0..<s]"
    using s lens by (intro map_cong) simp_all
  have "length (concat (map g [0..<s])) = sum_list (map (\<lambda>t. length (g t)) [0..<s])"
    by (simp add: length_concat comp_def)
  also have "\<dots> = sum_list (map len [0..<s])" by (simp only: e)
  finally have "length (concat (map g [0..<s])) = sum_list (map len [0..<s])" .
  then show ?thesis
    using lens s by (subst split) simp
qed

lemma expected_bulk_size_take:
  "s \<le> length ds \<Longrightarrow>
   expected_bulk_size (take s ds) = sum_list (map (\<lambda>t. nat (Length (ds ! t))) [0..<s])"
proof -
  assume s: "s \<le> length ds"
  have "take s ds = map (\<lambda>t. ds ! t) [0..<s]"
    using s by (intro nth_equalityI) simp_all
  then show ?thesis by (simp add: expected_bulk_size_def comp_def)
qed

text \<open>
  C1. In a round of N honest members (the Diffie-Hellman primitive derives the same
  secret from either side, the anonymous public values are pairwise different and of the
  scheme's length, hashes have the primitive's length, and the shuffle hands out a
  permutation of the descriptors), the round completes and every check passes; for every
  slot \<open>s\<close> the xor of all N members' contributions is \<open>cleartexts[s]\<close>, the hash of
  \<open>cleartexts[s]\<close> is the cleartext hash of \<open>descriptors[s]\<close>, the owner's contribution is
  its cleartext xored with all other members' contributions and \<open>cleartexts[s]\<close> is the
  owner's cleartext, and every other member's contribution is the keystream seeded with
  the shared secret, of the length \<open>descriptors[s]\<close> gives. Every member's cleartext is
  recovered once.
\<close>

theorem honest_round_recovers_cleartexts:
  assumes dh: "\<forall>a \<in> set members. \<forall>b \<in> set members.
                 DH (anon_dh_public a) (dh_private b) = DH (dh_public b) (anon_dh_private a)"
    and anon: "distinct (map anon_dh_public members)"
    and dh_size: "\<forall>m \<in> set members. length (anon_dh_public m) = dh_size"
    and hash_size: "\<forall>x. length (H x) = hash_size"
    and shuffle: "\<forall>ds. mset (shuffle ds) = mset ds"
  shows "\<exists>descriptors messages cleartexts.
           honest_round H DH rng dh_size hash_size shuffle members
             = Inr (descriptors, messages, cleartexts)
           \<and> length descriptors = length members
           \<and> length messages = length members
           \<and> length cleartexts = length members
           \<and> mset cleartexts = mset (map cleartext members)
           \<and> (\<forall>s < length members.
                 xor_all (replicate (nat (Length (descriptors ! s))) 0)
                    (map (contribution descriptors s) messages) = Inr (cleartexts ! s)
                 \<and> H (cleartexts ! s) = CleartextHash (descriptors ! s)
                 \<and> (\<forall>i < length members.
                       if PublicDh (descriptors ! s) = anon_dh_public (members ! i)
                       then cleartexts ! s = cleartext (members ! i)
                            \<and> xor_all (cleartext (members ! i))
                                  (others i (map (contribution descriptors s) messages))
                                = Inr (contribution descriptors s (messages ! i))
                       else contribution descriptors s (messages ! i)
                              = mask rng (DH (PublicDh (descriptors ! s))
                                            (dh_private (members ! i)))
                                  (Length (descriptors ! s))))"
proof -
  let ?N = "length members"
  define pubs where "pubs = map dh_public members"
  define c where "c j = cleartext (members ! j)" for j
  define ap where "ap j = anon_dh_public (members ! j)" for j
  define masks where
    "masks j = map (\<lambda>pub. mask rng (DH pub (anon_dh_private (members ! j))) (int (length (c j))))
                 pubs" for j
  define own where "own j = snd (projr (CreateDescriptor H DH rng pubs j (members ! j)))" for j
  define contribs where "contribs j = (masks j)[j := own j]" for j
  define des where
    "des j = \<lparr>Length = int (length (c j)), PublicDh = ap j,
              XorMessageHashes = map H (contribs j), CleartextHash = H (c j)\<rparr>" for j
  have lpubs: "length pubs = ?N" by (simp add: pubs_def)

  have cr: "CreateDescriptor H DH rng pubs j (members ! j) = Inr (des j, own j)
            \<and> length (own j) = length (c j)
            \<and> xor_all (c j) (others j (masks j)) = Inr (own j)
            \<and> xor_all (replicate (length (c j)) 0) (contribs j) = Inr (c j)"
    if j: "j < ?N" for j
  proof -
    from j have "j < length pubs" by (simp add: lpubs)
    from CreateDescriptor_honest [OF this, of H DH rng "members ! j"] obtain w where
      w: "CreateDescriptor H DH rng pubs j (members ! j)
            = Inr (\<lparr>Length = int (length (c j)), PublicDh = ap j,
                    XorMessageHashes = map H ((masks j)[j := w]), CleartextHash = H (c j)\<rparr>, w)"
        "length w = length (c j)"
        "xor_all (c j) (others j (masks j)) = Inr w"
        "xor_all (replicate (length (c j)) 0) ((masks j)[j := w]) = Inr (c j)"
      unfolding c_def ap_def masks_def by blast
    from w(1) have "own j = w" by (simp add: own_def)
    with w show ?thesis by (simp add: des_def contribs_def)
  qed
  have lcontribs: "length (contribs j) = ?N" for j
    by (simp add: contribs_def masks_def lpubs)
  have contribs_len: "length (contribs j ! i) = length (c j)" if "j < ?N" "i < ?N" for i j
  proof (cases "i = j")
    case True
    then show ?thesis using that cr [of j] by (simp add: contribs_def masks_def lpubs)
  next
    case False
    then show ?thesis using that by (simp add: contribs_def masks_def lpubs length_mask)
  qed

  define created where "created = map (\<lambda>j. (des j, own j)) [0..<?N]"
  have created: "collect (map (\<lambda>i. CreateDescriptor H DH rng pubs i (members ! i)) [0..<?N])
                   = Inr created"
    unfolding created_def by (rule collect_map_Inr) (simp add: cr)
  define D where "D = map des [0..<?N]"
  have fst_created: "map fst created = D" by (simp add: created_def D_def comp_def)
  have snd_created: "snd (created ! i) = own i" if "i < ?N" for i
    using that by (simp add: created_def)
  define ds where "ds = shuffle D"
  have mset_ds: "mset ds = mset D" using shuffle by (simp add: ds_def)
  then have lds: "length ds = ?N" by (metis D_def length_map length_upt mset_eq_length diff_zero)
  have set_ds: "set ds = set D" using mset_ds by (rule mset_eq_setD)

  have ap_inj: "i = j" if "i < ?N" "j < ?N" "ap i = ap j" for i j
    using that anon by (simp add: ap_def distinct_conv_nth) (metis length_map nth_map)
  have pd: "map PublicDh D = map anon_dh_public members"
    by (rule nth_equalityI) (simp_all add: D_def des_def ap_def)
  have "mset (map PublicDh ds) = mset (map PublicDh D)" using mset_ds by simp
  then have dist: "distinct (map PublicDh ds)"
    using anon pd by (metis mset_eq_imp_distinct_iff)

  have in_ds: "\<exists>j < ?N. d = des j" if "d \<in> set ds" for d
    using that unfolding set_ds D_def by auto
  have des_in: "\<exists>s < ?N. ds ! s = des j" if "j < ?N" for j
  proof -
    from that have "des j \<in> set ds" unfolding set_ds D_def by auto
    then show ?thesis by (auto simp: in_set_conv_nth lds)
  qed
  have des_inj: "i = j" if "i < ?N" "j < ?N" "des i = des j" for i j
  proof -
    from that(3) have "ap i = ap j" by (simp add: des_def)
    with that show ?thesis by (blast intro: ap_inj)
  qed

  have valid: "list_all (valid_descriptor ?N dh_size hash_size) ds"
  proof -
    have "valid_descriptor ?N dh_size hash_size d" if "d \<in> set ds" for d
    proof -
      from in_ds [OF that] obtain j where j: "j < ?N" "d = des j" by blast
      then have "members ! j \<in> set members" by simp
      with dh_size have "length (ap j) = dh_size" by (simp add: ap_def)
      then show ?thesis
        using j hash_size by (simp add: valid_descriptor_def des_def lcontribs list_all_iff)
    qed
    then show ?thesis by (simp add: list_all_iff)
  qed

  define ow where "ow s = (SOME j. j < ?N \<and> ds ! s = des j)" for s
  have ow: "ow s < ?N \<and> ds ! s = des (ow s)" if "s < ?N" for s
  proof -
    from that have "ds ! s \<in> set ds" by (simp add: lds)
    from in_ds [OF this] have "\<exists>j. j < ?N \<and> ds ! s = des j" by blast
    then show ?thesis unfolding ow_def by (rule someI_ex)
  qed
  define k where "k i = (SOME s. s < ?N \<and> ds ! s = des i)" for i
  have k: "k i < ?N \<and> ds ! (k i) = des i" if "i < ?N" for i
  proof -
    from des_in [OF that] have "\<exists>s. s < ?N \<and> ds ! s = des i" by blast
    then show ?thesis unfolding k_def by (rule someI_ex)
  qed
  have ow_k: "ow (k i) = i" if "i < ?N" for i
  proof -
    from k [OF that] have ki: "k i < ?N" "ds ! (k i) = des i" by simp_all
    from ow [OF ki(1)] have "ow (k i) < ?N" "des (ow (k i)) = des i" using ki(2) by simp_all
    then show ?thesis using that by (blast intro: des_inj)
  qed
  have k_ow: "k (ow s) = s" if "s < ?N" for s
  proof -
    from ow [OF that] have o: "ow s < ?N" "ds ! s = des (ow s)" by simp_all
    from k [OF o(1)] have ko: "k (ow s) < ?N" "ds ! (k (ow s)) = des (ow s)" by simp_all
    then have e: "map PublicDh ds ! (k (ow s)) = map PublicDh ds ! s"
      using o that by (simp add: lds)
    have l1: "k (ow s) < length (map PublicDh ds)" and l2: "s < length (map PublicDh ds)"
      using ko(1) that by (simp_all add: lds)
    from nth_eq_iff_index_eq [OF dist l1 l2] e show ?thesis by blast
  qed
  have my_idx: "my_index (anon_dh_public (members ! i)) ds = Some (k i)" if "i < ?N" for i
  proof -
    from k [OF that] have ki: "k i < length ds" "ds ! (k i) = des i" by (simp_all add: lds)
    from my_index_nth [OF dist ki(1)] show ?thesis by (simp add: ki(2) des_def ap_def)
  qed

  define g where
    "g i s = GenerateXorMessage DH rng (dh_private (members ! i)) (k i) (own i) ds s" for i s
  have g_eq: "g i s = contribs (ow s) ! i" if i: "i < ?N" and s: "s < ?N" for i s
  proof (cases "s = k i")
    case True
    then have "ow s = i" using ow_k [OF i] by simp
    then show ?thesis using True i by (simp add: g_def GenerateXorMessage_def contribs_def masks_def lpubs)
  next
    case False
    from ow [OF s] have o: "ow s < ?N" "ds ! s = des (ow s)" by simp_all
    have ne: "i \<noteq> ow s" using False k_ow [OF s] by auto
    have "members ! ow s \<in> set members" "members ! i \<in> set members" using o i by simp_all
    with dh have "DH (ap (ow s)) (dh_private (members ! i))
                    = DH (dh_public (members ! i)) (anon_dh_private (members ! ow s))"
      by (simp add: ap_def)
    then show ?thesis
      using False ne i o
      by (simp add: g_def GenerateXorMessage_def contribs_def masks_def pubs_def des_def)
  qed
  have len_s: "nat (Length (ds ! s)) = length (c (ow s))" if "s < ?N" for s
    using ow [OF that] by (simp add: des_def)
  have g_len: "length (g i s) = nat (Length (ds ! s))" if "i < ?N" "s < ?N" for i s
    using that g_eq [OF that] contribs_len [of "ow s" i] ow [OF that(2)] len_s [OF that(2)]
    by simp
  define row where "row i = concat (map (g i) [0..<?N])" for i
  have sf: "ShuffleFinished DH rng ?N dh_size hash_size (members ! i) (own i) ds = Inr (row i)"
    if "i < ?N" for i
  proof -
    have "g i = GenerateXorMessage DH rng (dh_private (members ! i)) (k i) (own i) ds"
      by (rule ext) (simp add: g_def)
    then show ?thesis
      using valid dist my_idx [OF that]
      by (simp add: ShuffleFinished_def lds GenerateXorMessages_def row_def)
  qed
  define ms where "ms = map row [0..<?N]"
  have msgs: "collect (map (\<lambda>i. ShuffleFinished DH rng ?N dh_size hash_size
                               (members ! i) (snd (created ! i)) ds) [0..<?N]) = Inr ms"
    unfolding ms_def by (rule collect_map_Inr) (simp add: sf snd_created)
  have contr: "contribution ds s (row i) = g i s" if i: "i < ?N" and s: "s < ?N" for i s
  proof -
    have "\<forall>t < ?N. length (g i t) = nat (Length (ds ! t))" using g_len [OF i] by simp
    from slice_concat [OF s this]
    show ?thesis
      using s by (simp add: contribution_def slot_offset_def expected_bulk_size_take lds row_def)
  qed
  have row_len: "length (row i) = expected_bulk_size ds" if i: "i < ?N" for i
  proof -
    have e: "map (\<lambda>t. length (g i t)) [0..<?N] = map (\<lambda>t. nat (Length (ds ! t))) [0..<?N]"
      using g_len [OF i] by (intro map_cong) simp_all
    have "length (row i) = sum_list (map (\<lambda>t. length (g i t)) [0..<?N])"
      by (simp add: row_def length_concat comp_def)
    also have "\<dots> = sum_list (map (\<lambda>t. nat (Length (ds ! t))) [0..<?N])" by (simp only: e)
    also have "\<dots> = expected_bulk_size ds"
      using expected_bulk_size_take [of ?N ds] by (simp add: lds)
    finally show ?thesis .
  qed
  have sizes: "list_all (\<lambda>m. length m = expected_bulk_size ds) ms"
    by (simp add: ms_def list_all_iff row_len)
  have parts: "map (contribution ds s) ms = contribs (ow s)" if s: "s < ?N" for s
    by (rule nth_equalityI) (simp_all add: ms_def lcontribs contr s g_eq)
  have pm: "ProcessMessage H ds ms s (slot_offset ds s) = Inr (c (ow s))" if s: "s < ?N" for s
  proof -
    from ow [OF s] have o: "ow s < ?N" "ds ! s = des (ow s)" by simp_all
    have p: "map (\<lambda>m. take (nat (Length (ds ! s))) (drop (slot_offset ds s) m)) ms
               = contribs (ow s)"
    proof -
      have "contribution ds s
              = (\<lambda>m. take (nat (Length (ds ! s))) (drop (slot_offset ds s) m))"
        by (rule ext) (simp add: contribution_def)
      with parts [OF s] show ?thesis by simp
    qed
    have x: "xor_all (replicate (nat (Length (ds ! s))) 0) (contribs (ow s)) = Inr (c (ow s))"
      using cr [OF o(1)] by (simp add: len_s [OF s])
    have h: "H (c (ow s)) = CleartextHash (ds ! s)"
            "map H (contribs (ow s)) = XorMessageHashes (ds ! s)"
      by (simp_all add: o(2) des_def)
    show ?thesis
      unfolding ProcessMessage_def Let_def p x using h by simp
  qed
  define cts where "cts = map (\<lambda>s. c (ow s)) [0..<?N]"
  have pms: "ProcessMessages H ds ms = Inr cts"
    unfolding ProcessMessages_def cts_def lds by (rule collect_map_Inr) (simp add: pm)
  have run: "honest_round H DH rng dh_size hash_size shuffle members = Inr (ds, ms, cts)"
    using sizes
    by (simp add: honest_round_def Let_def pubs_def [symmetric] created fst_created
          ds_def [symmetric] msgs pms)

  have mset_cts: "mset cts = mset (map cleartext members)"
  proof -
    define f where "f d = c (SOME j. j < ?N \<and> d = des j)" for d
    have "cts = map f ds"
      by (rule nth_equalityI) (simp_all add: cts_def lds f_def ow_def)
    then have "mset cts = mset (map f D)" using mset_ds by simp
    also have "map f D = map cleartext members"
    proof (rule nth_equalityI)
      show "length (map f D) = length (map cleartext members)" by (simp add: D_def)
    next
      fix j assume "j < length (map f D)"
      then have j: "j < ?N" by (simp add: D_def)
      have "(SOME j'. j' < ?N \<and> des j = des j') = j"
      proof (rule some_equality)
        show "j < ?N \<and> des j = des j" using j by simp
      next
        fix j' assume "j' < ?N \<and> des j = des j'"
        then show "j' = j" using j by (blast intro: des_inj [symmetric])
      qed
      then show "map f D ! j = map cleartext members ! j"
        using j by (simp add: f_def c_def D_def)
    qed
    finally show ?thesis .
  qed

  have slot: "xor_all (replicate (nat (Length (ds ! s))) 0) (map (contribution ds s) ms)
                = Inr (cts ! s)
              \<and> H (cts ! s) = CleartextHash (ds ! s)
              \<and> (\<forall>i < ?N.
                    if PublicDh (ds ! s) = anon_dh_public (members ! i)
                    then cts ! s = cleartext (members ! i)
                         \<and> xor_all (cleartext (members ! i))
                               (others i (map (contribution ds s) ms))
                             = Inr (contribution ds s (ms ! i))
                    else contribution ds s (ms ! i)
                           = mask rng (DH (PublicDh (ds ! s)) (dh_private (members ! i)))
                               (Length (ds ! s)))"
    if s: "s < ?N" for s
  proof -
    from ow [OF s] have o: "ow s < ?N" "ds ! s = des (ow s)" by simp_all
    have ct: "cts ! s = c (ow s)" using s by (simp add: cts_def)
    have a: "xor_all (replicate (nat (Length (ds ! s))) 0) (map (contribution ds s) ms)
               = Inr (cts ! s)"
      using cr [OF o(1)] by (simp add: parts [OF s] len_s [OF s] ct)
    have b: "H (cts ! s) = CleartextHash (ds ! s)" by (simp add: ct o(2) des_def)
    have "if PublicDh (ds ! s) = anon_dh_public (members ! i)
          then cts ! s = cleartext (members ! i)
               \<and> xor_all (cleartext (members ! i)) (others i (map (contribution ds s) ms))
                   = Inr (contribution ds s (ms ! i))
          else contribution ds s (ms ! i)
                 = mask rng (DH (PublicDh (ds ! s)) (dh_private (members ! i))) (Length (ds ! s))"
      if i: "i < ?N" for i
    proof (cases "PublicDh (ds ! s) = anon_dh_public (members ! i)")
      case True
      then have "ap (ow s) = ap i" by (simp add: o(2) des_def ap_def)
      then have oi: "ow s = i" using o(1) i by (blast intro: ap_inj)
      have "contribution ds s (ms ! i) = own i"
        using i s oi by (simp add: ms_def contr g_eq contribs_def masks_def lpubs)
      moreover have "others i (map (contribution ds s) ms) = others i (masks i)"
        using oi by (simp add: parts [OF s] contribs_def others_update)
      ultimately show ?thesis
        using True cr [OF i] oi by (simp add: ct c_def)
    next
      case False
      then have "ow s \<noteq> i" by (auto simp: o(2) des_def ap_def)
      then have "s \<noteq> k i" using ow_k [OF i] by auto
      then show ?thesis
        using False i by (simp add: ms_def contr s g_def GenerateXorMessage_def)
    qed
    with a b show ?thesis by blast
  qed
  have lms: "length ms = ?N" and lcts: "length cts = ?N"
    by (simp_all add: ms_def cts_def)
  from run lds lms lcts mset_cts slot show ?thesis
    by - (rule exI [of _ ds], rule exI [of _ ms], rule exI [of _ cts], blast)
qed

theorem honest_round_recovers_cleartexts_witness:
  "\<exists>descriptors messages cleartexts.
     honest_round (\<lambda>x. [of_nat (length x)]) (\<lambda>a b. map2 (+) a b) (\<lambda>s k. of_nat k + hd s)
       1 1 rev
       [\<lparr>dh_private = [1], dh_public = [1], anon_dh_private = [9], anon_dh_public = [9],
          cleartext = []\<rparr>,
        \<lparr>dh_private = [2], dh_public = [2], anon_dh_private = [19], anon_dh_public = [19],
          cleartext = [104, 105]\<rparr>,
        \<lparr>dh_private = [3], dh_public = [3], anon_dh_private = [29], anon_dh_public = [29],
          cleartext = []\<rparr>]
     = Inr (descriptors, messages, cleartexts)
     \<and> mset cleartexts = mset [[], [104, 105], []]"
proof -
  let ?members =
    "[\<lparr>dh_private = [1], dh_public = [1], anon_dh_private = [9], anon_dh_public = [9],
        cleartext = []\<rparr>,
      \<lparr>dh_private = [2], dh_public = [2], anon_dh_private = [19], anon_dh_public = [19],
        cleartext = [104, 105]\<rparr>,
      \<lparr>dh_private = [3::byte], dh_public = [3::byte], anon_dh_private = [29::byte],
        anon_dh_public = [29::byte], cleartext = ([]::QByteArray)\<rparr>]"
  let ?DH = "\<lambda>a b :: QByteArray. map2 (+) a b"
  let ?H = "\<lambda>x :: QByteArray. [of_nat (length x) :: byte]"
  have dh: "\<forall>a \<in> set ?members. \<forall>b \<in> set ?members.
              ?DH (anon_dh_public a) (dh_private b) = ?DH (dh_public b) (anon_dh_private a)"
    by simp
  have anon: "distinct (map anon_dh_public ?members)" by simp
  have dh_size: "\<forall>m \<in> set ?members. length (anon_dh_public m) = 1" by simp
  have hash_size: "\<forall>x. length (?H x) = 1" by simp
  have shuffle: "\<forall>ds :: Descriptor list. mset (rev ds) = mset ds" by simp
  from honest_round_recovers_cleartexts
         [OF dh anon dh_size hash_size shuffle, of "\<lambda>s k. of_nat k + hd s"]
  obtain descriptors messages cleartexts where
    "honest_round ?H ?DH (\<lambda>s k. of_nat k + hd s) 1 1 rev ?members
       = Inr (descriptors, messages, cleartexts)"
    "mset cleartexts = mset (map cleartext ?members)"
    by blast
  moreover have "map cleartext ?members = [[], [104, 105], []]" by simp
  ultimately show ?thesis by (metis (no_types))
qed

text \<open>
  A round in which two members use the same anonymous public value does not complete: the
  shuffle output is a malformed message.
\<close>

lemma ShuffleFinished_duplicate_dh:
  "list_all (valid_descriptor n dh_size hash_size) descriptors \<Longrightarrow>
   \<not> distinct (map PublicDh descriptors) \<Longrightarrow>
   ShuffleFinished DH rng n dh_size hash_size me my_xor_message descriptors
     = Inl MalformedMessage"
  by (simp add: ShuffleFinished_def)

lemma honest_round_duplicate_anon_dh:
  "honest_round (\<lambda>x. [of_nat (length x)]) (\<lambda>a b. map2 (+) a b) (\<lambda>s k. of_nat k + hd s)
     1 1 rev
     [\<lparr>dh_private = [1], dh_public = [1], anon_dh_private = [9], anon_dh_public = [9],
        cleartext = []\<rparr>,
      \<lparr>dh_private = [2], dh_public = [2], anon_dh_private = [9], anon_dh_public = [9],
        cleartext = [104, 105]\<rparr>]
   = Inl MalformedMessage"
  by (simp add: honest_round_def CreateDescriptor_def ShuffleFinished_def valid_descriptor_def
        others_def mask_def Xor_def upt_rec [of 0] upt_rec [of 1] upt_rec [of 2])

end
